theory Spec2Isabelle
  imports Complex_Main "HOL-Library.AList" "HOL-Library.Sublist" "HOL-Library.Multiset"
begin

section \<open>The DAG engine of app/etl/dag.py\<close>

subsection \<open>Data model\<close>

text \<open>
  \<^verbatim>\<open>class TaskStatus(str, Enum)\<close> with its five members and their string values.
\<close>

datatype TaskStatus = PENDING | RUNNING | SUCCESS | FAILED | SKIPPED

fun status_value :: "TaskStatus \<Rightarrow> string" where
  "status_value PENDING = ''pending''"
| "status_value RUNNING = ''running''"
| "status_value SUCCESS = ''success''"
| "status_value FAILED = ''failed''"
| "status_value SKIPPED = ''skipped''"

text \<open>
  A context or result is a \<^verbatim>\<open>dict[str, Any]\<close>: a finite map from strings to values of
  some type \<open>'v\<close>; \<^verbatim>\<open>context.update(m)\<close> is \<open>context ++ m\<close>.

  Calling a node's \<^verbatim>\<open>execute_fn\<close> either returns a mapping or \<^verbatim>\<open>None\<close>
  (\<open>Returns\<close>), or raises an exception of class \<^verbatim>\<open>Exception\<close> whose \<^verbatim>\<open>str(exc)\<close> is the
  given string (\<open>Raises\<close>); these are the faults of a task, and what
  \<^verbatim>\<open>except Exception\<close> catches. Interrupts and interpreter exits, which derive from
  \<^verbatim>\<open>BaseException\<close> only, are not task faults and are not modelled. The logic is taken
  to be a function of the context it is passed which returns a fresh mapping, as every
  step of app/etl/pipeline.py does.
\<close>

type_synonym 'v ctx = "string \<rightharpoonup> 'v"

datatype 'v outcome = Returns "'v ctx option" | Raises string

text \<open>\<^verbatim>\<open>@dataclass class TaskNode\<close>, field by field.\<close>

record 'v TaskNode =
  name :: string
  execute_fn :: "'v ctx \<Rightarrow> 'v outcome"
  depends_on :: "string list"
  status :: TaskStatus
  result :: "'v ctx"
  error :: "string option"
  duration_ms :: real

text \<open>
  \<^verbatim>\<open>class DAG\<close>: its name and \<^verbatim>\<open>self.tasks\<close>, a dict from task name to node. A Python
  dict iterates in insertion order, and the scheduler depends on that order, so the
  dict is an association list in insertion order.
\<close>

record 'v DAG =
  name :: string
  tasks :: "(string \<times> 'v TaskNode) list"

text \<open>
  The exceptions the engine raises: \<^verbatim>\<open>ValueError(msg)\<close> at the three \<^verbatim>\<open>raise\<close>
  statements and \<^verbatim>\<open>KeyError(key)\<close> where a dict is indexed with a key it does not hold.
  The three \<^verbatim>\<open>ValueError\<close>s are told apart by their messages; the constants below are
  the duplicate-name, unknown-dependency and cycle errors with the messages of the code.
\<close>

datatype exn = ValueError string | KeyError string

definition DuplicateNameError :: "string \<Rightarrow> exn" where
  "DuplicateNameError n = ValueError (''Duplicate task name: '' @ n)"

definition UnknownDependencyError :: "string \<Rightarrow> string \<Rightarrow> exn" where
  "UnknownDependencyError n dep =
     ValueError (''Task '' @ [CHR 0x27] @ n @ [CHR 0x27] @ '' depends on unknown task ''
                 @ [CHR 0x27] @ dep @ [CHR 0x27])"

definition CycleError :: exn where
  "CycleError = ValueError ''Cycle detected in DAG''"

subsection \<open>Graph construction\<close>

text \<open>\<^verbatim>\<open>DAG.__init__\<close>: a graph with no tasks.\<close>

definition init :: "string \<Rightarrow> 'v DAG" where
  "init n = \<lparr>name = n, tasks = []\<rparr>"

text \<open>
  \<^verbatim>\<open>DAG.add_task\<close>. The result is the exception raised, if any, and the graph after the
  call. \<^verbatim>\<open>depends_on or []\<close> turns \<^verbatim>\<open>None\<close> into the empty list; the other fields
  take the dataclass defaults.
\<close>

definition add_task ::
  "'v DAG \<Rightarrow> string \<Rightarrow> ('v ctx \<Rightarrow> 'v outcome) \<Rightarrow> string list option \<Rightarrow> exn option \<times> 'v DAG" where
  "add_task g n fn deps =
     (if n \<in> set (map fst (tasks g)) then (Some (DuplicateNameError n), g)
      else (None,
            g\<lparr>tasks := tasks g @
               [(n, \<lparr>TaskNode.name = n, execute_fn = fn,
                     depends_on = (case deps of None \<Rightarrow> [] | Some ds \<Rightarrow> ds),
                     status = PENDING, result = Map.empty, error = None,
                     duration_ms = 0\<rparr>)]\<rparr>))"

subsection \<open>Scheduling: Kahn's algorithm\<close>

text \<open>
  \<^verbatim>\<open>in_degree\<close> is a dict from name to int with the keys of \<^verbatim>\<open>self.tasks\<close> in the
  same order. The first loop of \<^verbatim>\<open>_topological_sort\<close> goes over the tasks and over
  each task's dependency list; \<open>count_deps\<close> is the inner loop for one task,
  \<open>count_all\<close> the outer one.
\<close>

type_synonym in_degree = "(string \<times> int) list"

fun count_deps ::
  "(string \<times> 'v TaskNode) list \<Rightarrow> 'v TaskNode \<Rightarrow> string list \<Rightarrow> in_degree \<Rightarrow> exn + in_degree" where
  "count_deps ts task [] deg = Inr deg"
| "count_deps ts task (dep # deps) deg =
     (if dep \<notin> set (map fst ts)
      then Inl (UnknownDependencyError (TaskNode.name task) dep)
      else (case map_of deg (TaskNode.name task) of
              None \<Rightarrow> Inl (KeyError (TaskNode.name task))
            | Some d \<Rightarrow>
                count_deps ts task deps
                  (AList.map_entry (TaskNode.name task) (\<lambda>d. d + 1) deg)))"

fun count_all ::
  "(string \<times> 'v TaskNode) list \<Rightarrow> (string \<times> 'v TaskNode) list \<Rightarrow> in_degree \<Rightarrow> exn + in_degree" where
  "count_all ts [] deg = Inr deg"
| "count_all ts ((k, task) # rest) deg =
     (case count_deps ts task (depends_on task) deg of
        Inl e \<Rightarrow> Inl e
      | Inr deg' \<Rightarrow> count_all ts rest deg')"

text \<open>
  The \<^verbatim>\<open>for name, task in self.tasks.items()\<close> loop inside the \<^verbatim>\<open>while\<close>: every task
  that lists \<open>current\<close> among its dependencies has its in-degree decremented once, and
  is appended to the queue when the in-degree is then zero. (\<^verbatim>\<open>in_degree\<close> holds every
  key of \<^verbatim>\<open>self.tasks\<close>, so indexing it by \<open>name\<close> does not raise.)
\<close>

fun release ::
  "string \<Rightarrow> (string \<times> 'v TaskNode) list \<Rightarrow> in_degree \<times> string list \<Rightarrow> in_degree \<times> string list" where
  "release current [] (deg, queue) = (deg, queue)"
| "release current ((n, task) # rest) (deg, queue) =
     (if current \<in> set (depends_on task)
      then (let deg' = AList.map_entry n (\<lambda>d. d - 1) deg
            in release current rest
                 (deg', if map_of deg' n = Some 0 then queue @ [n] else queue))
      else release current rest (deg, queue))"

definition positives :: "in_degree \<Rightarrow> nat" where
  "positives deg = length (filter (\<lambda>(k, d). 0 < d) deg)"

lemma positives_map_entry:
  "positives (AList.map_entry n (\<lambda>d. d - 1) deg)
     + (if map_of (AList.map_entry n (\<lambda>d. d - 1) deg) n = Some 0 then 1 else 0)
   = positives deg"
  by (induction deg) (auto simp: positives_def)

lemma release_measure:
  "release current ts (deg, queue) = (deg', queue') \<Longrightarrow>
   length queue' + positives deg' = length queue + positives deg"
proof (induction ts arbitrary: deg queue)
  case Nil
  then show ?case by simp
next
  case (Cons p ts)
  obtain n task where p: "p = (n, task)" by (cases p)
  show ?case
  proof (cases "current \<in> set (depends_on task)")
    case True
    let ?d = "AList.map_entry n (\<lambda>d. d - 1) deg"
    let ?q = "if map_of ?d n = Some 0 then queue @ [n] else queue"
    from Cons.prems p True have "release current ts (?d, ?q) = (deg', queue')"
      by (simp add: Let_def)
    from Cons.IH [OF this] have "length queue' + positives deg' = length ?q + positives ?d" .
    also have "\<dots> = length queue + positives deg"
      using positives_map_entry [of n deg] by (simp split: if_splits)
    finally show ?thesis .
  next
    case False
    with Cons.prems p have "release current ts (deg, queue) = (deg', queue')" by simp
    from Cons.IH [OF this] show ?thesis .
  qed
qed

text \<open>
  The \<^verbatim>\<open>while queue:\<close> loop: pop the head of the queue, append it to the order, release
  its dependents. It terminates on every input: each name enters the queue at most once
  more, when its in-degree steps from one to zero.
\<close>

function kahn_loop ::
  "(string \<times> 'v TaskNode) list \<Rightarrow> in_degree \<Rightarrow> string list \<Rightarrow> string list \<Rightarrow> string list" where
  "kahn_loop ts deg [] order = order"
| "kahn_loop ts deg (current # queue) order =
     (case release current ts (deg, queue) of
        (deg', queue') \<Rightarrow> kahn_loop ts deg' queue' (order @ [current]))"
  by pat_completeness auto
termination
  by (relation "measure (\<lambda>(ts, deg, queue, order). length queue + positives deg)")
     (auto dest!: release_measure [OF sym])

text \<open>
  \<^verbatim>\<open>DAG._topological_sort\<close>: count the in-degrees (failing on an unknown dependency),
  seed the queue with the names of in-degree zero in dict order, run the loop, and fail
  when the order does not hold every task.
\<close>

definition topological_sort :: "'v DAG \<Rightarrow> exn + string list" where
  "topological_sort g =
     (case count_all (tasks g) (tasks g) (map (\<lambda>(k, t). (k, 0)) (tasks g)) of
        Inl e \<Rightarrow> Inl e
      | Inr deg \<Rightarrow>
          (let order = kahn_loop (tasks g) deg (map fst (filter (\<lambda>(k, d). d = 0) deg)) []
           in if length order \<noteq> length (tasks g) then Inl CycleError else Inr order))"

subsection \<open>Execution\<close>

text \<open>
  The clock: \<open>perf_counter env i\<close> is what the \<open>i\<close>-th call of \<^verbatim>\<open>time.perf_counter()\<close>
  in a run returns, and \<open>round2 env\<close> is \<^verbatim>\<open>round(_, 2)\<close>. Both are parameters of the
  model; times are idealised as real numbers.
\<close>

record env =
  perf_counter :: "nat \<Rightarrow> real"
  round2 :: "real \<Rightarrow> real"

text \<open>
  An entry of \<^verbatim>\<open>summary["tasks"]\<close>: \<^verbatim>\<open>{"status": "skipped"}\<close> for a skipped node,
  \<^verbatim>\<open>{"status": ..., "duration_ms": ..., "error": ...}\<close> for one whose logic was invoked.
\<close>

datatype entry = SkippedEntry | RanEntry string real "string option"

text \<open>The dict \<^verbatim>\<open>run\<close> returns: keys \<^verbatim>\<open>"pipeline"\<close>, \<^verbatim>\<open>"tasks"\<close> and \<^verbatim>\<open>"status"\<close>.\<close>

record summary =
  summary_pipeline :: string
  summary_tasks :: "(string \<times> entry) list"
  summary_status :: string

text \<open>
  What the loop of \<^verbatim>\<open>run\<close> reads and writes: \<^verbatim>\<open>self.tasks\<close> (the nodes are mutated in
  place), the local \<^verbatim>\<open>context\<close> and \<^verbatim>\<open>summary["tasks"]\<close>, the number of clock readings
  taken, and \<open>rs_calls\<close>, the invocations of task logic so far: the name of the node and
  the context its \<^verbatim>\<open>execute_fn\<close> was called with, in call order.
\<close>

record 'v run_state =
  rs_tasks :: "(string \<times> 'v TaskNode) list"
  rs_context :: "'v ctx"
  rs_summary :: "(string \<times> entry) list"
  rs_calls :: "(string \<times> 'v ctx) list"
  rs_clock :: nat

text \<open>
  \<^verbatim>\<open>any(self.tasks[dep].status == TaskStatus.FAILED for dep in task.depends_on)\<close>: it stops
  at the first failed dependency, and indexing \<^verbatim>\<open>self.tasks\<close> raises on a missing key.
\<close>

fun upstream_failed :: "(string \<times> 'v TaskNode) list \<Rightarrow> string list \<Rightarrow> exn + bool" where
  "upstream_failed ts [] = Inr False"
| "upstream_failed ts (dep # deps) =
     (case map_of ts dep of
        None \<Rightarrow> Inl (KeyError dep)
      | Some t \<Rightarrow> if status t = FAILED then Inr True else upstream_failed ts deps)"

text \<open>\<^verbatim>\<open>for dep in task.depends_on: context.update(self.tasks[dep].result)\<close>\<close>

fun merge_upstream ::
  "(string \<times> 'v TaskNode) list \<Rightarrow> string list \<Rightarrow> 'v ctx \<Rightarrow> exn + 'v ctx" where
  "merge_upstream ts [] context = Inr context"
| "merge_upstream ts (dep # deps) context =
     (case map_of ts dep of
        None \<Rightarrow> Inl (KeyError dep)
      | Some t \<Rightarrow> merge_upstream ts deps (context ++ result t))"

text \<open>
  The \<^verbatim>\<open>try\<close> statement around the call of the logic, with the assignment of
  \<^verbatim>\<open>RUNNING\<close> before it: the node after the call returned or raised.
\<close>

definition invoke :: "'v TaskNode \<Rightarrow> 'v ctx \<Rightarrow> 'v TaskNode" where
  "invoke task context =
     (let task = task\<lparr>status := RUNNING\<rparr>
      in case execute_fn task context of
           Returns r \<Rightarrow>
             task\<lparr>result := (case r of None \<Rightarrow> Map.empty | Some m \<Rightarrow> m), status := SUCCESS\<rparr>
         | Raises msg \<Rightarrow> task\<lparr>status := FAILED, error := Some msg\<rparr>)"

text \<open>
  One iteration of \<^verbatim>\<open>for task_name in execution_order\<close>. The first component of the
  result is the exception that left the loop, if any.
\<close>

definition visit :: "env \<Rightarrow> string \<Rightarrow> 'v run_state \<Rightarrow> exn option \<times> 'v run_state" where
  "visit env task_name st =
     (case map_of (rs_tasks st) task_name of
        None \<Rightarrow> (Some (KeyError task_name), st)
      | Some task \<Rightarrow>
          (case upstream_failed (rs_tasks st) (depends_on task) of
             Inl e \<Rightarrow> (Some e, st)
           | Inr True \<Rightarrow>
               (None,
                st\<lparr>rs_tasks := AList.update task_name (task\<lparr>status := SKIPPED\<rparr>) (rs_tasks st),
                   rs_summary := AList.update task_name SkippedEntry (rs_summary st)\<rparr>)
           | Inr False \<Rightarrow>
               (case merge_upstream (rs_tasks st) (depends_on task) (rs_context st) of
                  Inl e \<Rightarrow> (Some e, st)
                | Inr context \<Rightarrow>
                    (let start = perf_counter env (rs_clock st);
                         task = invoke task context;
                         task = task\<lparr>duration_ms :=
                                  (perf_counter env (rs_clock st + 1) - start) * 1000\<rparr>
                     in (None,
                         st\<lparr>rs_tasks := AList.update task_name task (rs_tasks st),
                            rs_context := context,
                            rs_summary :=
                              AList.update task_name
                                (RanEntry (status_value (status task))
                                   (round2 env (duration_ms task)) (error task))
                                (rs_summary st),
                            rs_calls := rs_calls st @ [(task_name, context)],
                            rs_clock := rs_clock st + 2\<rparr>)))))"

fun run_loop :: "env \<Rightarrow> string list \<Rightarrow> 'v run_state \<Rightarrow> exn option \<times> 'v run_state" where
  "run_loop env [] st = (None, st)"
| "run_loop env (task_name # rest) st =
     (case visit env task_name st of
        (Some e, st') \<Rightarrow> (Some e, st')
      | (None, st') \<Rightarrow> run_loop env rest st')"

text \<open>
  \<^verbatim>\<open>DAG.run\<close>. The result has three parts: the summary returned or the exception raised,
  the graph as the call leaves it, and the invocations of task logic the call made.
  \<^verbatim>\<open>initial_context or {}\<close> turns \<^verbatim>\<open>None\<close> into the empty mapping.
\<close>

definition run ::
  "env \<Rightarrow> 'v DAG \<Rightarrow> 'v ctx option \<Rightarrow> (exn + summary) \<times> 'v DAG \<times> (string \<times> 'v ctx) list" where
  "run env g initial_context =
     (case topological_sort g of
        Inl e \<Rightarrow> (Inl e, g, [])
      | Inr execution_order \<Rightarrow>
          (case run_loop env execution_order
                  \<lparr>rs_tasks = tasks g,
                   rs_context = (case initial_context of None \<Rightarrow> Map.empty | Some c \<Rightarrow> c),
                   rs_summary = [], rs_calls = [], rs_clock = 0\<rparr> of
             (Some e, st) \<Rightarrow> (Inl e, g\<lparr>tasks := rs_tasks st\<rparr>, rs_calls st)
           | (None, st) \<Rightarrow>
               (let all_success = list_all (\<lambda>(k, t). status t = SUCCESS) (rs_tasks st)
                in (Inr \<lparr>summary_pipeline = DAG.name g, summary_tasks = rs_summary st,
                         summary_status = (if all_success then ''completed'' else ''failed'')\<rparr>,
                    g\<lparr>tasks := rs_tasks st\<rparr>, rs_calls st))))"



subsection \<open>Notions used in the statements\<close>

text \<open>
  A task dict as the API builds it: its keys are distinct, as in any dict, and every
  node is stored under its own name, as \<^verbatim>\<open>add_task\<close> stores it.
\<close>

definition wf_dag :: "'v DAG \<Rightarrow> bool" where
  "wf_dag g \<longleftrightarrow>
     distinct (map fst (tasks g)) \<and> list_all (\<lambda>(k, t). TaskNode.name t = k) (tasks g)"

text \<open>
  Every dependency name is the name of a task.
\<close>

definition resolved :: "'v DAG \<Rightarrow> bool" where
  "resolved g \<longleftrightarrow>
     list_all (\<lambda>(k, t). list_all (\<lambda>dep. dep \<in> set (map fst (tasks g))) (depends_on t)) (tasks g)"

text \<open>
  The dependency relation: the pairs of a task name and a name in its dependency list.
  The graph has a cycle when this relation is not \<open>acyclic\<close>.
\<close>

definition dep_rel :: "'v DAG \<Rightarrow> (string \<times> string) set" where
  "dep_rel g = set (concat (map (\<lambda>(k, t). map (Pair k) (depends_on t)) (tasks g)))"

text \<open>The dependency list of the node stored under a name (empty for an unknown name).\<close>

definition deps_of :: "(string \<times> 'v TaskNode) list \<Rightarrow> string \<Rightarrow> string list" where
  "deps_of ts k = (case map_of ts k of None \<Rightarrow> [] | Some t \<Rightarrow> depends_on t)"

text \<open>
  The position of a name in an order (the length of the order for a name not in it).
\<close>

definition position :: "string list \<Rightarrow> string \<Rightarrow> nat" where
  "position xs x = length (takeWhile (\<lambda>y. y \<noteq> x) xs)"

text \<open>
  The order the \<^verbatim>\<open>while\<close> loop of the scheduler has emitted when it ends, before its length
  is compared with the number of tasks.
\<close>

definition emitted_order :: "'v DAG \<Rightarrow> exn + string list" where
  "emitted_order g =
     (case count_all (tasks g) (tasks g) (map (\<lambda>(k, t). (k, 0)) (tasks g)) of
        Inl e \<Rightarrow> Inl e
      | Inr deg \<Rightarrow> Inr (kahn_loop (tasks g) deg (map fst (filter (\<lambda>(k, d). d = 0) deg)) []))"


text \<open>
  The part of the task dict that \<^verbatim>\<open>add_task\<close> writes and \<^verbatim>\<open>run\<close> never assigns: for each
  key the node's name, logic and dependency list.
\<close>

definition static :: "(string \<times> 'v TaskNode) list \<Rightarrow> (string \<times> string \<times> ('v ctx \<Rightarrow> 'v outcome) \<times> string list) list" where
  "static ts = map (\<lambda>(k, t). (k, TaskNode.name t, execute_fn t, depends_on t)) ts"

text \<open>The state in which \<^verbatim>\<open>run\<close> enters its loop.\<close>

definition start :: "'v DAG \<Rightarrow> 'v ctx option \<Rightarrow> 'v run_state" where
  "start g initial_context =
     \<lparr>rs_tasks = tasks g,
      rs_context = (case initial_context of None \<Rightarrow> Map.empty | Some c \<Rightarrow> c),
      rs_summary = [], rs_calls = [], rs_clock = 0\<rparr>"


text \<open>
  The loop invariant of Kahn's algorithm, for a task list with distinct keys: the
  in-degree of a name is the length of its dependency list minus the number of its
  dependencies already emitted; a name is emitted or queued exactly when its in-degree
  is zero; and every emitted name comes after all of its dependencies.
\<close>

definition kahn_inv ::
  "(string \<times> 'v TaskNode) list \<Rightarrow> in_degree \<Rightarrow> string list \<Rightarrow> string list \<Rightarrow> bool" where
  "kahn_inv ts deg q order \<longleftrightarrow>
     map fst deg = map fst ts \<and> distinct (order @ q) \<and> set (order @ q) \<subseteq> fst ` set ts \<and>
     (\<forall>k \<in> fst ` set ts.
        map_of deg k = Some (int (length (deps_of ts k)) - int (card (set (deps_of ts k) \<inter> set order)))) \<and>
     (\<forall>k \<in> fst ` set ts. k \<in> set (order @ q) \<longleftrightarrow> map_of deg k = Some 0) \<and>
     (\<forall>k \<in> set order. set (deps_of ts k) \<subseteq> set (takeWhile (\<lambda>y. y \<noteq> k) order))"

subsection \<open>Example graphs\<close>

text \<open>Task logic for the examples: one that returns \<^verbatim>\<open>None\<close>, one that raises.\<close>

definition ok :: "int ctx \<Rightarrow> int outcome" where
  "ok context = Returns None"

definition boom :: "int ctx \<Rightarrow> int outcome" where
  "boom context = Raises ''Intentional failure''"


definition unit_clock :: env where
  "unit_clock = \<lparr>perf_counter = (\<lambda>i. real i), round2 = (\<lambda>x. x)\<rparr>"

text \<open>The chain \<open>a \<leftarrow> b \<leftarrow> c\<close> in which \<open>a\<close> raises.\<close>

definition chain_abc :: "int DAG" where
  "chain_abc =
     snd (add_task (snd (add_task (snd (add_task (init ''chain'')
       ''a'' boom None)) ''b'' ok (Some [''a'']))) ''c'' ok (Some [''b'']))"

text \<open>Two tasks that depend on each other, as in \<^verbatim>\<open>test_cycle_detection\<close>.\<close>

definition cycle_ab :: "int DAG" where
  "cycle_ab =
     snd (add_task (snd (add_task (init ''test_cycle'')
       ''a'' ok (Some [''b'']))) ''b'' ok (Some [''a'']))"

text \<open>A task whose dependency list names the same task twice.\<close>

definition twice_a :: "int DAG" where
  "twice_a =
     snd (add_task (snd (add_task (init ''twice'')
       ''a'' ok None)) ''b'' ok (Some [''a'', ''a'']))"

text \<open>A task that depends on a name no task has.\<close>

definition ghost_dep :: "int DAG" where
  "ghost_dep =
     snd (add_task (snd (add_task (init ''ghost'')
       ''a'' ok None)) ''b'' ok (Some [''a'', ''ghost'']))"




section \<open>Properties of graph construction\<close>

text \<open>
  Every graph built with \<^verbatim>\<open>DAG(name)\<close> and \<^verbatim>\<open>add_task\<close> is well formed, whether a call of
  \<^verbatim>\<open>add_task\<close> succeeds or raises.
\<close>

lemma wf_dag_init: "wf_dag (init n)"
  by (simp add: wf_dag_def init_def)

lemma wf_dag_add_task: "wf_dag g \<Longrightarrow> wf_dag (snd (add_task g n fn deps))"
  by (simp add: wf_dag_def add_task_def)

text \<open>
  The equations that unfold the example graphs.
\<close>

lemmas example_defs =
  chain_abc_def cycle_ab_def twice_a_def ghost_dep_def add_task_def init_def

section \<open>Properties of the scheduler\<close>

lemma deps_of_Nil [simp]: "deps_of [] k = []"
  by (simp add: deps_of_def)

lemma deps_of_Cons [simp]:
  "deps_of ((n, t) # rs) k = (if k = n then depends_on t else deps_of rs k)"
  by (simp add: deps_of_def)

lemma deps_of_notin: "k \<notin> fst ` set rs \<Longrightarrow> deps_of rs k = []"
  using map_of_eq_None_iff [of rs k] by (simp add: deps_of_def)

lemma map_fst_map_entry [simp]: "map fst (AList.map_entry n f xs) = map fst xs"
  by (induction xs) auto

lemma count_deps_Inr:
  "count_deps ts task deps deg = Inr deg' \<Longrightarrow>
   set deps \<subseteq> set (map fst ts) \<and> map fst deg' = map fst deg \<and>
   map_of deg' = (\<lambda>k. if k = TaskNode.name task
                        then map_option (\<lambda>d. d + int (length deps)) (map_of deg k)
                        else map_of deg k)"
proof (induction deps arbitrary: deg)
  case Nil
  then show ?case by (auto simp: fun_eq_iff option.map_ident)
next
  case (Cons dep deps)
  let ?n = "TaskNode.name task"
  from Cons.prems have dep: "dep \<in> set (map fst ts)"
    by (auto split: if_splits)
  from Cons.prems dep obtain d where d: "map_of deg ?n = Some d"
    by (auto split: option.splits)
  let ?deg1 = "AList.map_entry ?n (\<lambda>d. d + 1) deg"
  from Cons.prems dep d have "count_deps ts task deps ?deg1 = Inr deg'" by simp
  from Cons.IH [OF this]
  have ih: "set deps \<subseteq> set (map fst ts)" "map fst deg' = map fst ?deg1"
    "map_of deg' = (\<lambda>k. if k = ?n then map_option (\<lambda>d. d + int (length deps)) (map_of ?deg1 k)
                        else map_of ?deg1 k)"
    by auto
  have "map_of deg' k = (if k = ?n then map_option (\<lambda>d. d + int (length (dep # deps))) (map_of deg k)
                        else map_of deg k)" for k
    unfolding ih(3) by (simp add: map_of_map_entry d)
  with ih dep show ?case by (auto simp: fun_eq_iff)
qed

lemma release_view:
  "distinct (map fst rs) \<Longrightarrow> release c rs (deg, q) = (deg', q') \<Longrightarrow>
   map fst deg' = map fst deg \<and>
   map_of deg' = (\<lambda>k. if c \<in> set (deps_of rs k) then map_option (\<lambda>d. d - 1) (map_of deg k)
                        else map_of deg k) \<and>
   q' = q @ filter (\<lambda>k. c \<in> set (deps_of rs k) \<and> map_of deg k = Some 1) (map fst rs)"
proof (induction rs arbitrary: deg q)
  case Nil
  then show ?case by (auto simp: fun_eq_iff)
next
  case (Cons p rs)
  obtain n t where p: "p = (n, t)" by (cases p)
  from Cons.prems p have n: "n \<notin> fst ` set rs" and dist: "distinct (map fst rs)" by auto
  have none: "deps_of rs n = []" using n by (rule deps_of_notin)
  show ?case
  proof (cases "c \<in> set (depends_on t)")
    case True
    let ?d = "AList.map_entry n (\<lambda>d. d - 1) deg"
    let ?q = "if map_of ?d n = Some 0 then q @ [n] else q"
    from Cons.prems p True have "release c rs (?d, ?q) = (deg', q')"
      by (simp add: Let_def)
    from Cons.IH [OF dist this]
    have ih: "map fst deg' = map fst ?d"
      "map_of deg' = (\<lambda>k. if c \<in> set (deps_of rs k) then map_option (\<lambda>d. d - 1) (map_of ?d k)
                        else map_of ?d k)"
      "q' = ?q @ filter (\<lambda>k. c \<in> set (deps_of rs k) \<and> map_of ?d k = Some 1) (map fst rs)"
      by auto
    have d_n: "map_of ?d n = map_option (\<lambda>d. d - 1) (map_of deg n)"
      by (simp add: map_of_map_entry split: option.splits)
    have d_other: "map_of ?d k = map_of deg k" if "k \<noteq> n" for k
      using that by (simp add: map_of_map_entry)
    have zero: "map_of ?d n = Some 0 \<longleftrightarrow> map_of deg n = Some 1"
      unfolding d_n by (cases "map_of deg n") auto
    have 1: "map fst deg' = map fst deg" using ih(1) by simp
    have 2: "map_of deg' k = (if c \<in> set (deps_of (p # rs) k) then map_option (\<lambda>d. d - 1) (map_of deg k)
                        else map_of deg k)" for k
    proof (cases "k = n")
      case True
      with ih(2) none d_n \<open>c \<in> set (depends_on t)\<close> p show ?thesis by simp
    next
      case False
      with ih(2) d_other p show ?thesis by simp
    qed
    have "filter (\<lambda>k. c \<in> set (deps_of rs k) \<and> map_of ?d k = Some 1) (map fst rs)
        = filter (\<lambda>k. c \<in> set (deps_of (p # rs) k) \<and> map_of deg k = Some 1) (map fst rs)"
      using n p d_other by (intro filter_cong) (auto simp: image_iff)
    with ih(3) zero True p
    have 3: "q' = q @ filter (\<lambda>k. c \<in> set (deps_of (p # rs) k) \<and> map_of deg k = Some 1) (map fst (p # rs))"
      by simp
    from 1 2 3 show ?thesis by (simp add: fun_eq_iff)
  next
    case False
    with Cons.prems p have "release c rs (deg, q) = (deg', q')" by simp
    from Cons.IH [OF dist this]
    have ih: "map fst deg' = map fst deg"
      "map_of deg' = (\<lambda>k. if c \<in> set (deps_of rs k) then map_option (\<lambda>d. d - 1) (map_of deg k)
                        else map_of deg k)"
      "q' = q @ filter (\<lambda>k. c \<in> set (deps_of rs k) \<and> map_of deg k = Some 1) (map fst rs)"
      by auto
    have "filter (\<lambda>k. c \<in> set (deps_of rs k) \<and> map_of deg k = Some 1) (map fst rs)
        = filter (\<lambda>k. c \<in> set (deps_of (p # rs) k) \<and> map_of deg k = Some 1) (map fst rs)"
      using n p by (intro filter_cong) (auto simp: image_iff)
    with ih(3) False p
    have 3: "q' = q @ filter (\<lambda>k. c \<in> set (deps_of (p # rs) k) \<and> map_of deg k = Some 1) (map fst (p # rs))"
      by simp
    have 2: "map_of deg' k = (if c \<in> set (deps_of (p # rs) k) then map_option (\<lambda>d. d - 1) (map_of deg k)
                        else map_of deg k)" for k
      using ih(2) False p none by (cases "k = n") auto
    from ih(1) 2 3 show ?thesis by (simp add: fun_eq_iff)
  qed
qed

lemma kahn_inv_ready:
  assumes "kahn_inv ts deg q order" and "k \<in> fst ` set ts" and "map_of deg k = Some 0"
  shows "set (deps_of ts k) \<subseteq> set order"
proof -
  let ?D = "set (deps_of ts k)"
  from assms have "int (length (deps_of ts k)) - int (card (?D \<inter> set order)) = 0"
    by (auto simp: kahn_inv_def)
  then have "length (deps_of ts k) = card (?D \<inter> set order)" by simp
  moreover have "card (?D \<inter> set order) \<le> card ?D" by (simp add: card_mono)
  moreover have "card ?D \<le> length (deps_of ts k)" by (rule card_length)
  ultimately have "card (?D \<inter> set order) = card ?D" by simp
  then have "?D \<inter> set order = ?D" by (intro card_subset_eq) auto
  then show ?thesis by blast
qed

lemma kahn_inv_step:
  assumes dist: "distinct (map fst ts)"
    and inv: "kahn_inv ts deg (c # q) order"
    and rel: "release c ts (deg, q) = (deg', q')"
  shows "kahn_inv ts deg' q' (order @ [c])"
proof -
  let ?K = "fst ` set ts"
  let ?new = "filter (\<lambda>k. c \<in> set (deps_of ts k) \<and> map_of deg k = Some 1) (map fst ts)"
  from release_view [OF dist rel]
  have keys: "map fst deg' = map fst deg"
    and deg': "\<And>k. map_of deg' k = (if c \<in> set (deps_of ts k) then map_option (\<lambda>d. d - 1) (map_of deg k)
                        else map_of deg k)"
    and q': "q' = q @ ?new"
    by auto
  from inv have c_order: "c \<notin> set order" and c_q: "c \<notin> set q" and c_K: "c \<in> ?K"
    and d_old: "distinct (order @ q)" and sub_old: "set (order @ q) \<subseteq> ?K"
    by (auto simp: kahn_inv_def)
  from inv have I3: "\<And>k. k \<in> ?K \<Longrightarrow>
      map_of deg k = Some (int (length (deps_of ts k)) - int (card (set (deps_of ts k) \<inter> set order)))"
    and I4: "\<And>k. k \<in> ?K \<Longrightarrow> k \<in> set (order @ c # q) \<longleftrightarrow> map_of deg k = Some 0"
    and I6: "\<And>k. k \<in> set order \<Longrightarrow> set (deps_of ts k) \<subseteq> set (takeWhile (\<lambda>y. y \<noteq> k) order)"
    by (auto simp: kahn_inv_def)
  have ready: "set (deps_of ts k) \<subseteq> set order" if "k \<in> ?K" "map_of deg k = Some 0" for k
    using kahn_inv_ready [OF inv that] .
  have c_notdep: "c \<notin> set (deps_of ts k)" if "k \<in> ?K" "map_of deg k = Some 0" for k
    using ready [OF that] c_order by blast
  have new_sub: "set ?new \<subseteq> ?K" by auto
  have new_fresh: "k \<notin> set (order @ c # q)" if "k \<in> set ?new" for k
  proof -
    from that have "k \<in> ?K" "map_of deg k = Some 1" by auto
    with I4 [of k] show ?thesis by simp
  qed
  have "distinct ?new" using dist by (simp add: distinct_map_filter)
  with d_old c_order c_q new_fresh
  have P2: "distinct ((order @ [c]) @ q')" unfolding q' by auto
  from sub_old c_K new_sub have P3: "set ((order @ [c]) @ q') \<subseteq> ?K" unfolding q' by auto
  have P4: "map_of deg' k = Some (int (length (deps_of ts k))
               - int (card (set (deps_of ts k) \<inter> set (order @ [c]))))" if "k \<in> ?K" for k
  proof (cases "c \<in> set (deps_of ts k)")
    case True
    then have "set (deps_of ts k) \<inter> set (order @ [c]) = insert c (set (deps_of ts k) \<inter> set order)"
      by auto
    moreover have "c \<notin> set (deps_of ts k) \<inter> set order" using c_order by simp
    ultimately have "card (set (deps_of ts k) \<inter> set (order @ [c]))
        = Suc (card (set (deps_of ts k) \<inter> set order))"
      by simp
    with True deg' [of k] I3 [OF that] show ?thesis by simp
  next
    case False
    then have "set (deps_of ts k) \<inter> set (order @ [c]) = set (deps_of ts k) \<inter> set order"
      by auto
    with False deg' [of k] I3 [OF that] show ?thesis by simp
  qed
  have P5: "k \<in> set ((order @ [c]) @ q') \<longleftrightarrow> map_of deg' k = Some 0" if k: "k \<in> ?K" for k
  proof
    assume "k \<in> set ((order @ [c]) @ q')"
    then consider "k \<in> set (order @ c # q)" | "k \<in> set ?new" unfolding q' by auto
    then show "map_of deg' k = Some 0"
    proof cases
      case 1
      with I4 [OF k] have z: "map_of deg k = Some 0" by simp
      with c_notdep [OF k] deg' [of k] show ?thesis by simp
    next
      case 2
      then have "c \<in> set (deps_of ts k)" "map_of deg k = Some 1" by auto
      with deg' [of k] show ?thesis by simp
    qed
  next
    assume z: "map_of deg' k = Some 0"
    show "k \<in> set ((order @ [c]) @ q')"
    proof (cases "c \<in> set (deps_of ts k)")
      case True
      with z deg' [of k] have "map_of deg k = Some 1" by (cases "map_of deg k") auto
      with True k have "k \<in> set ?new" by auto
      then show ?thesis unfolding q' by simp
    next
      case False
      with z deg' [of k] have "map_of deg k = Some 0" by simp
      with I4 [OF k] show ?thesis unfolding q' by auto
    qed
  qed
  have P6: "set (deps_of ts k) \<subseteq> set (takeWhile (\<lambda>y. y \<noteq> k) (order @ [c]))"
    if "k \<in> set (order @ [c])" for k
  proof (cases "k \<in> set order")
    case True
    then have "takeWhile (\<lambda>y. y \<noteq> k) (order @ [c]) = takeWhile (\<lambda>y. y \<noteq> k) order"
      by (intro takeWhile_append1) auto
    with I6 [OF True] show ?thesis by simp
  next
    case False
    with that have kc: "k = c" by simp
    from False have "takeWhile (\<lambda>y. y \<noteq> k) (order @ [c]) = order @ takeWhile (\<lambda>y. y \<noteq> k) [c]"
      by (intro takeWhile_append2) auto
    with kc have tw: "takeWhile (\<lambda>y. y \<noteq> k) (order @ [c]) = order" by simp
    from I4 [OF c_K] have "map_of deg c = Some 0" by simp
    from ready [OF c_K this] kc tw show ?thesis by simp
  qed
  from keys inv have P1: "map fst deg' = map fst ts" by (simp add: kahn_inv_def)
  from P1 P2 P3 P4 P5 P6 show ?thesis unfolding kahn_inv_def by blast
qed

lemma kahn_loop_inv:
  "distinct (map fst ts) \<Longrightarrow> kahn_inv ts deg q order \<Longrightarrow>
   \<exists>deg'. kahn_inv ts deg' [] (kahn_loop ts deg q order)"
proof (induction ts deg q order rule: kahn_loop.induct)
  case (1 ts deg order)
  then show ?case by auto
next
  case (2 ts deg current queue order)
  obtain deg' q' where rel: "release current ts (deg, queue) = (deg', q')"
    by (cases "release current ts (deg, queue)")
  from kahn_inv_step [OF "2.prems"(1) "2.prems"(2) rel]
  have "kahn_inv ts deg' q' (order @ [current])" .
  from "2.IH" [OF rel [symmetric] "2.prems"(1) this] rel show ?case by simp
qed

lemma count_deps_ok:
  "TaskNode.name task \<in> fst ` set deg \<Longrightarrow> set deps \<subseteq> fst ` set ts \<Longrightarrow>
   \<exists>deg'. count_deps ts task deps deg = Inr deg'"
proof (induction deps arbitrary: deg)
  case Nil
  then show ?case by simp
next
  case (Cons dep deps)
  let ?n = "TaskNode.name task"
  from Cons.prems obtain d where d: "map_of deg ?n = Some d"
    by (cases "map_of deg ?n") (auto simp: map_of_eq_None_iff)
  have "?n \<in> fst ` set (AList.map_entry ?n (\<lambda>d. d + 1) deg)"
    using Cons.prems by (simp add: dom_map_entry)
  from Cons.IH [OF this] Cons.prems d show ?case by simp
qed

lemma count_deps_unknown:
  "TaskNode.name task \<in> fst ` set deg \<Longrightarrow> \<not> set deps \<subseteq> fst ` set ts \<Longrightarrow>
   \<exists>dep. dep \<in> set deps \<and> dep \<notin> fst ` set ts \<and>
     count_deps ts task deps deg = Inl (UnknownDependencyError (TaskNode.name task) dep)"
proof (induction deps arbitrary: deg)
  case Nil
  then show ?case by simp
next
  case (Cons dep deps)
  let ?n = "TaskNode.name task"
  let ?deg1 = "AList.map_entry ?n (\<lambda>d. d + 1) deg"
  show ?case
  proof (cases "dep \<in> fst ` set ts")
    case False
    then have "count_deps ts task (dep # deps) deg = Inl (UnknownDependencyError ?n dep)"
      by simp
    with False show ?thesis by (intro exI [of _ dep]) simp
  next
    case True
    from Cons.prems obtain d where d: "map_of deg ?n = Some d"
      by (cases "map_of deg ?n") (auto simp: map_of_eq_None_iff)
    from True d have step: "count_deps ts task (dep # deps) deg = count_deps ts task deps ?deg1"
      by simp
    have n1: "?n \<in> fst ` set ?deg1"
      using Cons.prems by (simp add: dom_map_entry)
    from Cons.prems True have "\<not> set deps \<subseteq> fst ` set ts" by simp
    from Cons.IH [OF n1 this] obtain dep' where "dep' \<in> set deps" "dep' \<notin> fst ` set ts"
      "count_deps ts task deps ?deg1 = Inl (UnknownDependencyError ?n dep')" by blast
    with step show ?thesis by (intro exI [of _ dep']) simp
  qed
qed

lemma count_all_ok:
  "\<forall>(k, t) \<in> set rest. TaskNode.name t \<in> fst ` set deg \<Longrightarrow>
   \<forall>(k, t) \<in> set rest. set (depends_on t) \<subseteq> fst ` set ts \<Longrightarrow>
   \<exists>deg'. count_all ts rest deg = Inr deg'"
proof (induction rest arbitrary: deg)
  case Nil
  then show ?case by simp
next
  case (Cons p rest)
  obtain n t where p: "p = (n, t)" by (cases p)
  from Cons.prems p have nm: "TaskNode.name t \<in> fst ` set deg"
    and sub: "set (depends_on t) \<subseteq> fst ` set ts" by auto
  from count_deps_ok [OF nm sub]
  obtain deg1 where deg1: "count_deps ts t (depends_on t) deg = Inr deg1" by blast
  from count_deps_Inr [OF deg1] have "map fst deg1 = map fst deg" by simp
  then have "fst ` set deg1 = fst ` set deg" by (metis set_map)
  with Cons.prems have "\<forall>(k, t) \<in> set rest. TaskNode.name t \<in> fst ` set deg1" by auto
  moreover from Cons.prems have "\<forall>(k, t) \<in> set rest. set (depends_on t) \<subseteq> fst ` set ts" by simp
  ultimately obtain deg' where "count_all ts rest deg1 = Inr deg'"
    using Cons.IH by blast
  with deg1 p show ?case by simp
qed

lemma count_all_unknown:
  "\<forall>(k, t) \<in> set rest. TaskNode.name t \<in> fst ` set deg \<Longrightarrow>
   \<not> (\<forall>(k, t) \<in> set rest. set (depends_on t) \<subseteq> fst ` set ts) \<Longrightarrow>
   \<exists>k t dep. (k, t) \<in> set rest \<and> dep \<in> set (depends_on t) \<and> dep \<notin> fst ` set ts \<and>
     count_all ts rest deg = Inl (UnknownDependencyError (TaskNode.name t) dep)"
proof (induction rest arbitrary: deg)
  case Nil
  then show ?case by simp
next
  case (Cons p rest)
  obtain n t where p: "p = (n, t)" by (cases p)
  from Cons.prems p have nm: "TaskNode.name t \<in> fst ` set deg" by auto
  show ?case
  proof (cases "set (depends_on t) \<subseteq> fst ` set ts")
    case False
    from count_deps_unknown [OF nm False]
    obtain dep where dep: "dep \<in> set (depends_on t)" "dep \<notin> fst ` set ts"
      "count_deps ts t (depends_on t) deg = Inl (UnknownDependencyError (TaskNode.name t) dep)"
      by blast
    then have "count_all ts (p # rest) deg = Inl (UnknownDependencyError (TaskNode.name t) dep)"
      using p by simp
    with dep p show ?thesis
      by (intro exI [of _ n] exI [of _ t] exI [of _ dep]) simp
  next
    case True
    from count_deps_ok [OF nm True]
    obtain deg1 where deg1: "count_deps ts t (depends_on t) deg = Inr deg1" by blast
    then have step: "count_all ts (p # rest) deg = count_all ts rest deg1" using p by simp
    from count_deps_Inr [OF deg1] have "map fst deg1 = map fst deg" by simp
    then have "fst ` set deg1 = fst ` set deg" by (metis set_map)
    with Cons.prems have n1: "\<forall>(k, t) \<in> set rest. TaskNode.name t \<in> fst ` set deg1" by auto
    from Cons.prems(2) True p
    have "\<not> (\<forall>(k, t) \<in> set rest. set (depends_on t) \<subseteq> fst ` set ts)" by simp
    from Cons.IH [OF n1 this]
    obtain k' t' dep' where "(k', t') \<in> set rest" "dep' \<in> set (depends_on t')"
      "dep' \<notin> fst ` set ts"
      "count_all ts rest deg1 = Inl (UnknownDependencyError (TaskNode.name t') dep')"
      by blast
    with step show ?thesis
      by (intro exI [of _ k'] exI [of _ t'] exI [of _ dep']) simp
  qed
qed

lemma count_all_Inr:
  assumes "count_all ts rest deg = Inr deg'"
    and "distinct (map fst rest)" and "list_all (\<lambda>(k, t). TaskNode.name t = k) rest"
  shows "(\<forall>(k, t) \<in> set rest. set (depends_on t) \<subseteq> fst ` set ts) \<and>
         map fst deg' = map fst deg \<and>
         map_of deg' = (\<lambda>k. map_option (\<lambda>d. d + int (length (deps_of rest k))) (map_of deg k))"
  using assms
proof (induction rest arbitrary: deg)
  case Nil
  then show ?case by (simp add: fun_eq_iff option.map_ident)
next
  case (Cons p rest)
  obtain n t where p: "p = (n, t)" by (cases p)
  from Cons.prems p have nm: "TaskNode.name t = n" and n: "n \<notin> fst ` set rest"
    and dist: "distinct (map fst rest)" and names: "list_all (\<lambda>(k, t). TaskNode.name t = k) rest"
    by auto
  from Cons.prems(1) p obtain deg1 where deg1: "count_deps ts t (depends_on t) deg = Inr deg1"
    and rest: "count_all ts rest deg1 = Inr deg'"
    by (auto split: sum.splits)
  from count_deps_Inr [OF deg1] nm
  have c1: "set (depends_on t) \<subseteq> fst ` set ts" "map fst deg1 = map fst deg"
    "\<And>k. map_of deg1 k = (if k = n then map_option (\<lambda>d. d + int (length (depends_on t))) (map_of deg k)
                        else map_of deg k)"
    by auto
  from Cons.IH [OF rest dist names]
  have ih: "\<forall>(k, t) \<in> set rest. set (depends_on t) \<subseteq> fst ` set ts" "map fst deg' = map fst deg1"
    "\<And>k. map_of deg' k = map_option (\<lambda>d. d + int (length (deps_of rest k))) (map_of deg1 k)"
    by auto
  have "map_of deg' k = map_option (\<lambda>d. d + int (length (deps_of (p # rest) k))) (map_of deg k)" for k
    unfolding ih(3) c1(3) using deps_of_notin [OF n] p
    by (simp add: option.map_ident)
  with c1 ih p show ?case by (auto simp: fun_eq_iff)
qed

lemma kahn_inv_initial:
  assumes "distinct (map fst ts)" and "list_all (\<lambda>(k, t). TaskNode.name t = k) ts"
    and "count_all ts ts (map (\<lambda>(k, t). (k, 0)) ts) = Inr deg"
  shows "kahn_inv ts deg (map fst (filter (\<lambda>(k, d). d = 0) deg)) []"
proof -
  let ?deg0 = "map (\<lambda>(k, t). (k, 0::int)) ts"
  have keys0: "map fst ?deg0 = map fst ts" by (simp add: case_prod_unfold comp_def)
  have m0: "map_of ?deg0 k = Some 0" if "k \<in> fst ` set ts" for k
  proof -
    from that have "k \<in> fst ` set ?deg0" using keys0 by (metis set_map)
    then obtain d where "map_of ?deg0 k = Some d"
      by (cases "map_of ?deg0 k") (auto simp: map_of_eq_None_iff)
    moreover from this have "d = 0" by (auto dest!: map_of_SomeD)
    ultimately show ?thesis by simp
  qed
  from count_all_Inr [OF assms(3) assms(1) assms(2)] keys0
  have keys: "map fst deg = map fst ts"
    and m: "\<And>k. map_of deg k = map_option (\<lambda>d. d + int (length (deps_of ts k))) (map_of ?deg0 k)"
    by auto
  have dd: "distinct (map fst deg)" using keys assms(1) by simp
  have I3: "map_of deg k = Some (int (length (deps_of ts k)))" if "k \<in> fst ` set ts" for k
    using m [of k] m0 [OF that] by simp
  have q: "k \<in> set (map fst (filter (\<lambda>(k, d). d = 0) deg)) \<longleftrightarrow> map_of deg k = Some 0" for k
    using dd by (auto simp: image_iff)
  have "distinct (map fst (filter (\<lambda>(k, d). d = 0) deg))" using dd by (rule distinct_map_filter)
  moreover have "set (map fst (filter (\<lambda>(k, d). d = 0) deg)) \<subseteq> fst ` set ts"
    using keys by (metis (no_types, lifting) filter_is_subset image_mono set_map)
  ultimately show ?thesis using keys I3 q unfolding kahn_inv_def by simp
qed

lemma resolved_iff:
  "resolved g \<longleftrightarrow> (\<forall>(k, t) \<in> set (tasks g). set (depends_on t) \<subseteq> fst ` set (tasks g))"
  by (auto simp: resolved_def list_all_iff)

lemma wf_dag_names:
  "wf_dag g \<Longrightarrow> \<forall>(k, t) \<in> set (tasks g). TaskNode.name t \<in> fst ` set (map (\<lambda>(k, t). (k, 0::int)) (tasks g))"
  by (force simp: wf_dag_def list_all_iff image_iff)

lemma toposort_unknown:
  assumes "wf_dag g" and "\<not> resolved g"
  shows "\<exists>k t dep. (k, t) \<in> set (tasks g) \<and> dep \<in> set (depends_on t) \<and>
           dep \<notin> fst ` set (tasks g) \<and>
           topological_sort g = Inl (UnknownDependencyError (TaskNode.name t) dep)"
proof -
  from assms(2) have "\<not> (\<forall>(k, t) \<in> set (tasks g). set (depends_on t) \<subseteq> fst ` set (tasks g))"
    by (simp add: resolved_iff)
  from count_all_unknown [OF wf_dag_names [OF assms(1)] this]
  obtain k t dep where "(k, t) \<in> set (tasks g)" "dep \<in> set (depends_on t)"
    "dep \<notin> fst ` set (tasks g)"
    "count_all (tasks g) (tasks g) (map (\<lambda>(k, t). (k, 0)) (tasks g))
       = Inl (UnknownDependencyError (TaskNode.name t) dep)"
    by blast
  then show ?thesis
    by (intro exI [of _ k] exI [of _ t] exI [of _ dep]) (simp add: topological_sort_def)
qed

lemma toposort_resolved:
  assumes "wf_dag g" and "resolved g"
  shows "\<exists>deg order. emitted_order g = Inr order \<and> kahn_inv (tasks g) deg [] order \<and>
           topological_sort g =
             (if length order \<noteq> length (tasks g) then Inl CycleError else Inr order)"
proof -
  from assms(2) have "\<forall>(k, t) \<in> set (tasks g). set (depends_on t) \<subseteq> fst ` set (tasks g)"
    by (simp add: resolved_iff)
  from count_all_ok [OF wf_dag_names [OF assms(1)] this]
  obtain deg where deg: "count_all (tasks g) (tasks g) (map (\<lambda>(k, t). (k, 0)) (tasks g)) = Inr deg"
    by blast
  from assms(1) have dist: "distinct (map fst (tasks g))"
    and names: "list_all (\<lambda>(k, t). TaskNode.name t = k) (tasks g)"
    by (simp_all add: wf_dag_def)
  let ?q = "map fst (filter (\<lambda>(k, d). d = 0) deg)"
  from kahn_loop_inv [OF dist kahn_inv_initial [OF dist names deg]]
  obtain deg' where "kahn_inv (tasks g) deg' [] (kahn_loop (tasks g) deg ?q [])" by blast
  moreover have "topological_sort g =
      (if length (kahn_loop (tasks g) deg ?q []) \<noteq> length (tasks g) then Inl CycleError
       else Inr (kahn_loop (tasks g) deg ?q []))"
    using deg by (simp add: topological_sort_def Let_def)
  moreover have "emitted_order g = Inr (kahn_loop (tasks g) deg ?q [])"
    using deg by (simp add: emitted_order_def)
  ultimately show ?thesis by blast
qed

lemma toposort_Inr:
  assumes "wf_dag g" and "topological_sort g = Inr order"
  shows "resolved g \<and> length order = length (tasks g) \<and> (\<exists>deg. kahn_inv (tasks g) deg [] order)"
proof -
  have r: "resolved g"
  proof (rule ccontr)
    assume "\<not> resolved g"
    from toposort_unknown [OF assms(1) this] assms(2) show False by auto
  qed
  from toposort_resolved [OF assms(1) r] assms(2) show ?thesis
    using r by (auto split: if_splits)
qed

lemma kahn_inv_final_set:
  assumes "distinct (map fst ts)" and "kahn_inv ts deg [] order" and "length order = length ts"
  shows "set order = fst ` set ts"
proof -
  from assms(2) have d: "distinct order" and sub: "set order \<subseteq> fst ` set ts"
    by (simp_all add: kahn_inv_def)
  have "card (set order) = length order" using d by (rule distinct_card)
  also have "\<dots> = length (map fst ts)" using assms(3) by simp
  also have "\<dots> = card (set (map fst ts))" using distinct_card [OF assms(1)] by simp
  finally have "card (set order) = card (fst ` set ts)" by simp
  with sub show ?thesis by (intro card_subset_eq) auto
qed

lemma deps_of_member:
  "distinct (map fst ts) \<Longrightarrow> (k, t) \<in> set ts \<Longrightarrow> deps_of ts k = depends_on t"
  by (simp add: deps_of_def)

lemma position_takeWhile:
  "d \<in> set (takeWhile (\<lambda>y. y \<noteq> k) xs) \<Longrightarrow> position xs d < position xs k"
  unfolding position_def
proof (induction xs)
  case Nil
  then show ?case by simp
next
  case (Cons x xs)
  then show ?case by (cases "x = k") auto
qed

lemma kahn_inv_positions:
  assumes dist: "distinct (map fst ts)" and inv: "kahn_inv ts deg [] order"
    and all: "set order = fst ` set ts"
    and kt: "(k, t) \<in> set ts" and d: "dep \<in> set (depends_on t)"
  shows "position order dep < position order k"
proof -
  from kt all have "k \<in> set order" by force
  with inv have "set (deps_of ts k) \<subseteq> set (takeWhile (\<lambda>y. y \<noteq> k) order)"
    by (simp add: kahn_inv_def)
  with deps_of_member [OF dist kt] d have "dep \<in> set (takeWhile (\<lambda>y. y \<noteq> k) order)" by auto
  then show ?thesis by (rule position_takeWhile)
qed

lemma positions_acyclic:
  assumes "\<And>k dep. (k, dep) \<in> r \<Longrightarrow> position order dep < position order k"
  shows "acyclic r"
proof -
  have "r\<inverse> \<subseteq> measure (position order)" using assms by auto
  then have "wf (r\<inverse>)" by (rule wf_subset [OF wf_measure])
  then have "acyclic (r\<inverse>)" by (rule wf_acyclic)
  then show ?thesis by simp
qed

lemma dep_rel_iff:
  "(k, dep) \<in> dep_rel g \<longleftrightarrow> (\<exists>t. (k, t) \<in> set (tasks g) \<and> dep \<in> set (depends_on t))"
  by (auto simp: dep_rel_def)

lemma finite_dep_rel: "finite (dep_rel g)"
  unfolding dep_rel_def by (rule finite_set)

lemma kahn_complete:
  assumes wf: "wf_dag g" and res: "resolved g" and acyc: "acyclic (dep_rel g)"
    and nodup: "\<forall>(k, t) \<in> set (tasks g). distinct (depends_on t)"
    and inv: "kahn_inv (tasks g) deg [] order"
  shows "set order = fst ` set (tasks g)"
proof (rule ccontr)
  let ?ts = "tasks g"
  let ?S = "fst ` set ?ts - set order"
  assume "set order \<noteq> fst ` set ?ts"
  moreover from inv have "set order \<subseteq> fst ` set ?ts" by (simp add: kahn_inv_def)
  ultimately obtain x where x: "x \<in> ?S" by blast
  from wf have dist: "distinct (map fst ?ts)" by (simp add: wf_dag_def)
  have succ: "\<exists>dep \<in> ?S. (k, dep) \<in> dep_rel g" if k: "k \<in> ?S" for k
  proof -
    from k obtain t where kt: "(k, t) \<in> set ?ts" by auto
    let ?D = "set (deps_of ?ts k)"
    from deps_of_member [OF dist kt] have deps: "deps_of ?ts k = depends_on t" .
    from nodup kt have "distinct (depends_on t)" by auto
    then have len: "length (deps_of ?ts k) = card ?D" using deps by (simp add: distinct_card)
    from k inv have "map_of deg k \<noteq> Some 0" by (auto simp: kahn_inv_def)
    moreover from k inv
    have "map_of deg k = Some (int (length (deps_of ?ts k)) - int (card (?D \<inter> set order)))"
      by (auto simp: kahn_inv_def)
    ultimately have "card (?D \<inter> set order) \<noteq> card ?D" using len by auto
    then have "?D \<inter> set order \<noteq> ?D" by auto
    then obtain dep where dep: "dep \<in> ?D" "dep \<notin> set order" by blast
    from dep(1) deps kt res have "dep \<in> fst ` set ?ts" by (auto simp: resolved_iff)
    moreover from dep(1) deps kt have "(k, dep) \<in> dep_rel g" by (auto simp: dep_rel_iff)
    ultimately show ?thesis using dep(2) by blast
  qed
  from finite_acyclic_wf_converse [OF finite_dep_rel acyc] have "wf ((dep_rel g)\<inverse>)" .
  from wfE_min [OF this x] obtain z where z: "z \<in> ?S"
    and min: "\<And>y. (y, z) \<in> (dep_rel g)\<inverse> \<Longrightarrow> y \<notin> ?S" by blast
  from succ [OF z] obtain dep where "dep \<in> ?S" "(z, dep) \<in> dep_rel g" by blast
  with min [of dep] show False by simp
qed

text \<open>
  The scheduler is correct on the graphs in which no dependency list repeats a name:
  when the names resolve and the relation is acyclic, it returns a permutation of the
  task names in which every task comes after each of its dependencies.
\<close>

lemma topological_sort_correct:
  assumes wf: "wf_dag g" and res: "resolved g" and acyc: "acyclic (dep_rel g)"
    and nodup: "\<forall>(k, t) \<in> set (tasks g). distinct (depends_on t)"
  shows "\<exists>order. topological_sort g = Inr order \<and>
           mset order = mset (map fst (tasks g)) \<and>
           (\<forall>(k, t) \<in> set (tasks g). \<forall>dep \<in> set (depends_on t).
              position order dep < position order k)"
proof -
  from toposort_resolved [OF wf res]
  obtain deg order where inv: "kahn_inv (tasks g) deg [] order"
    and ts: "topological_sort g =
               (if length order \<noteq> length (tasks g) then Inl CycleError else Inr order)"
    by blast
  from wf have dist: "distinct (map fst (tasks g))" by (simp add: wf_dag_def)
  from kahn_complete [OF wf res acyc nodup inv] have all: "set order = fst ` set (tasks g)" .
  from inv have d: "distinct order" by (simp add: kahn_inv_def)
  from all have "set order = set (map fst (tasks g))" by simp
  with d dist have m: "mset order = mset (map fst (tasks g))"
    using set_eq_iff_mset_eq_distinct [of order "map fst (tasks g)"] by blast
  then have "length order = length (tasks g)" by (metis length_map size_mset)
  with ts have "topological_sort g = Inr order" by simp
  moreover have "\<forall>(k, t) \<in> set (tasks g). \<forall>dep \<in> set (depends_on t).
              position order dep < position order k"
    using kahn_inv_positions [OF dist inv all] by blast
  ultimately show ?thesis using m by blast
qed

lemma toposort_order:
  assumes "wf_dag g" and "topological_sort g = Inr order"
  shows "distinct order" and "set order = fst ` set (tasks g)"
    and "\<forall>(k, t) \<in> set (tasks g). set (depends_on t) \<subseteq> fst ` set (tasks g)"
    and "\<forall>k \<in> set order. set (deps_of (tasks g) k) \<subseteq> set (takeWhile (\<lambda>y. y \<noteq> k) order)"
proof -
  from toposort_Inr [OF assms] obtain deg where res: "resolved g"
    and len: "length order = length (tasks g)" and inv: "kahn_inv (tasks g) deg [] order"
    by blast
  from assms(1) have dist: "distinct (map fst (tasks g))" by (simp add: wf_dag_def)
  from inv show "distinct order" by (simp add: kahn_inv_def)
  from kahn_inv_final_set [OF dist inv len] show "set order = fst ` set (tasks g)" .
  from res show "\<forall>(k, t) \<in> set (tasks g). set (depends_on t) \<subseteq> fst ` set (tasks g)"
    by (simp add: resolved_iff)
  from inv show "\<forall>k \<in> set order. set (deps_of (tasks g) k) \<subseteq> set (takeWhile (\<lambda>y. y \<noteq> k) order)"
    by (simp add: kahn_inv_def)
qed












section \<open>Properties of the run loop\<close>

lemma static_Cons [simp]:
  "static ((k, t) # ts) = (k, TaskNode.name t, execute_fn t, depends_on t) # static ts"
  by (simp add: static_def)

lemma static_Nil [simp]: "static [] = []"
  by (simp add: static_def)

lemma static_update:
  "map_of ts k = Some t \<Longrightarrow> TaskNode.name t' = TaskNode.name t \<Longrightarrow>
   execute_fn t' = execute_fn t \<Longrightarrow> depends_on t' = depends_on t \<Longrightarrow>
   static (AList.update k t' ts) = static ts"
proof (induction ts)
  case Nil
  then show ?case by simp
next
  case (Cons p ts)
  then show ?case by (cases p) (auto split: if_splits)
qed

lemma static_keys: "static ts = static ts' \<Longrightarrow> map fst ts = map fst ts'"
proof -
  assume "static ts = static ts'"
  then have "map fst (static ts) = map fst (static ts')" by simp
  then show ?thesis by (simp add: static_def case_prod_unfold comp_def)
qed

lemma map_of_static:
  "map_of (static ts) k
     = map_option (\<lambda>t. (TaskNode.name t, execute_fn t, depends_on t)) (map_of ts k)"
  by (induction ts) (auto simp: static_def)


lemma static_execute_fn:
  "static ts = static ts' \<Longrightarrow> map_of ts k = Some t \<Longrightarrow>
   \<exists>t'. map_of ts' k = Some t' \<and> execute_fn t' = execute_fn t \<and> depends_on t' = depends_on t"
proof -
  assume "static ts = static ts'" and t: "map_of ts k = Some t"
  then have "map_of (static ts) k = map_of (static ts') k" by simp
  with t show ?thesis by (cases "map_of ts' k") (auto simp: map_of_static)
qed


lemma static_resolved:
  assumes "static ts' = static ts"
    and "\<forall>(k, t) \<in> set ts. set (depends_on t) \<subseteq> fst ` set ts"
  shows "\<forall>(k, t) \<in> set ts'. set (depends_on t) \<subseteq> fst ` set ts'"
proof -
  have keys: "fst ` set ts' = fst ` set ts" using static_keys [OF assms(1)] by (metis set_map)
  have "set (depends_on t') \<subseteq> fst ` set ts" if "(k, t') \<in> set ts'" for k t'
  proof -
    from that have "(k, TaskNode.name t', execute_fn t', depends_on t') \<in> set (static ts')"
      by (force simp: static_def)
    with assms(1) have "(k, TaskNode.name t', execute_fn t', depends_on t') \<in> set (static ts)" by simp
    then obtain t where "(k, t) \<in> set ts" "depends_on t = depends_on t'"
      by (auto simp: static_def)
    with assms(2) show ?thesis by force
  qed
  then show ?thesis unfolding keys by blast
qed

lemma invoke_static [simp]:
  "TaskNode.name (invoke t c) = TaskNode.name t"
  "execute_fn (invoke t c) = execute_fn t"
  "depends_on (invoke t c) = depends_on t"
  by (simp_all add: invoke_def Let_def split: outcome.splits)

lemma invoke_Raises:
  "execute_fn t c = Raises msg \<Longrightarrow> status (invoke t c) = FAILED \<and> error (invoke t c) = Some msg"
  by (simp add: invoke_def Let_def)

lemma invoke_status: "status (invoke t c) = SUCCESS \<or> status (invoke t c) = FAILED"
  by (simp add: invoke_def Let_def split: outcome.splits)

lemma visit_cases:
  assumes "visit env n st = (None, st')"
  obtains (skip) t where "map_of (rs_tasks st) n = Some t"
      and "upstream_failed (rs_tasks st) (depends_on t) = Inr True"
      and "st' = st\<lparr>rs_tasks := AList.update n (t\<lparr>status := SKIPPED\<rparr>) (rs_tasks st),
                     rs_summary := AList.update n SkippedEntry (rs_summary st)\<rparr>"
  | (ran) t c t' where "map_of (rs_tasks st) n = Some t"
      and "upstream_failed (rs_tasks st) (depends_on t) = Inr False"
      and "merge_upstream (rs_tasks st) (depends_on t) (rs_context st) = Inr c"
      and "t' = (invoke t c)\<lparr>duration_ms :=
                  (perf_counter env (rs_clock st + 1) - perf_counter env (rs_clock st)) * 1000\<rparr>"
      and "st' = st\<lparr>rs_tasks := AList.update n t' (rs_tasks st),
                     rs_context := c,
                     rs_summary := AList.update n
                        (RanEntry (status_value (status t')) (round2 env (duration_ms t')) (error t'))
                        (rs_summary st),
                     rs_calls := rs_calls st @ [(n, c)],
                     rs_clock := rs_clock st + 2\<rparr>"
  using assms
  by (auto simp: visit_def Let_def split: option.splits sum.splits bool.splits)

lemma visit_error_state: "visit env n st = (Some e, st') \<Longrightarrow> st' = st"
  by (auto simp: visit_def Let_def split: option.splits sum.splits bool.splits)

lemma visit_static: "visit env n st = (r, st') \<Longrightarrow> static (rs_tasks st') = static (rs_tasks st)"
proof (cases r)
  case (Some e)
  assume "visit env n st = (r, st')"
  with Some visit_error_state show ?thesis by metis
next
  case None
  assume "visit env n st = (r, st')"
  with None have "visit env n st = (None, st')" by simp
  then show ?thesis
    by (cases rule: visit_cases) (simp_all add: static_update)
qed

lemma run_loop_static:
  "run_loop env ns st = (r, st') \<Longrightarrow> static (rs_tasks st') = static (rs_tasks st)"
proof (induction ns arbitrary: st)
  case Nil
  then show ?case by simp
next
  case (Cons n ns)
  obtain r1 st1 where v: "visit env n st = (r1, st1)" by (cases "visit env n st")
  show ?case
  proof (cases r1)
    case (Some e)
    with v Cons.prems have "st' = st1" by simp
    with visit_static [OF v] show ?thesis by simp
  next
    case None
    with v Cons.prems have "run_loop env ns st1 = (r, st')" by simp
    from Cons.IH [OF this] visit_static [OF v] show ?thesis by simp
  qed
qed

lemma upstream_failed_ok:
  "set deps \<subseteq> fst ` set ts \<Longrightarrow> \<exists>b. upstream_failed ts deps = Inr b"
proof (induction deps)
  case Nil
  show ?case by (rule exI [of _ False]) simp
next
  case (Cons dep deps)
  then obtain t where "map_of ts dep = Some t"
    by (cases "map_of ts dep") (auto simp: map_of_eq_None_iff)
  with Cons show ?case by (cases "status t = FAILED") auto
qed

lemma merge_upstream_ok:
  "set deps \<subseteq> fst ` set ts \<Longrightarrow> \<exists>c'. merge_upstream ts deps c = Inr c'"
proof (induction deps arbitrary: c)
  case Nil
  then show ?case by simp
next
  case (Cons dep deps)
  then obtain t where "map_of ts dep = Some t"
    by (cases "map_of ts dep") (auto simp: map_of_eq_None_iff)
  with Cons show ?case by simp
qed

lemma visit_ok:
  assumes "n \<in> fst ` set (rs_tasks st)"
    and "\<forall>(k, t) \<in> set (rs_tasks st). set (depends_on t) \<subseteq> fst ` set (rs_tasks st)"
  shows "\<exists>st'. visit env n st = (None, st')"
proof -
  from assms(1) obtain t where t: "map_of (rs_tasks st) n = Some t"
    by (cases "map_of (rs_tasks st) n") (auto simp: map_of_eq_None_iff)
  then have "(n, t) \<in> set (rs_tasks st)" by (rule map_of_SomeD)
  with assms(2) have sub: "set (depends_on t) \<subseteq> fst ` set (rs_tasks st)" by auto
  from upstream_failed_ok [OF sub] obtain b
    where b: "upstream_failed (rs_tasks st) (depends_on t) = Inr b" by blast
  from merge_upstream_ok [OF sub] obtain c
    where c: "merge_upstream (rs_tasks st) (depends_on t) (rs_context st) = Inr c" by blast
  from t b c show ?thesis by (cases b) (simp_all add: visit_def Let_def)
qed

lemma run_loop_ok:
  assumes "set ns \<subseteq> fst ` set (rs_tasks st)"
    and "\<forall>(k, t) \<in> set (rs_tasks st). set (depends_on t) \<subseteq> fst ` set (rs_tasks st)"
  shows "\<exists>st'. run_loop env ns st = (None, st')"
  using assms
proof (induction ns arbitrary: st)
  case Nil
  then show ?case by simp
next
  case (Cons n ns)
  from Cons.prems have "n \<in> fst ` set (rs_tasks st)" by simp
  from visit_ok [OF this Cons.prems(2)] obtain st1 where v: "visit env n st = (None, st1)" by blast
  from visit_static [OF v] have s: "static (rs_tasks st1) = static (rs_tasks st)" .
  from static_keys [OF s] have "fst ` set (rs_tasks st1) = fst ` set (rs_tasks st)" by (metis set_map)
  with Cons.prems have 1: "set ns \<subseteq> fst ` set (rs_tasks st1)" by simp
  from static_resolved [OF s Cons.prems(2)]
  have 2: "\<forall>(k, t) \<in> set (rs_tasks st1). set (depends_on t) \<subseteq> fst ` set (rs_tasks st1)" .
  from Cons.IH [OF 1 2] v show ?case by simp
qed

lemma run_scheduled:
  assumes "wf_dag g" and "topological_sort g = Inr order"
  shows "\<exists>st. run_loop env order (start g initial_context) = (None, st) \<and>
           run env g initial_context =
             (Inr \<lparr>summary_pipeline = DAG.name g, summary_tasks = rs_summary st,
                   summary_status =
                     (if list_all (\<lambda>(k, t). status t = SUCCESS) (rs_tasks st)
                      then ''completed'' else ''failed'')\<rparr>,
              g\<lparr>tasks := rs_tasks st\<rparr>, rs_calls st)"
proof -
  from toposort_order(2,3) [OF assms]
  have "set order \<subseteq> fst ` set (rs_tasks (start g initial_context))"
    and "\<forall>(k, t) \<in> set (rs_tasks (start g initial_context)).
           set (depends_on t) \<subseteq> fst ` set (rs_tasks (start g initial_context))"
    by (simp_all add: start_def)
  from run_loop_ok [OF this] obtain st
    where "run_loop env order (start g initial_context) = (None, st)" by blast
  with assms(2) show ?thesis by (simp add: run_def start_def Let_def)
qed



lemma visit_frame:
  assumes "visit env n st = (r, st')" and "k \<noteq> n"
  shows "map_of (rs_tasks st') k = map_of (rs_tasks st) k"
    and "map_of (rs_summary st') k = map_of (rs_summary st) k"
proof -
  have "map_of (rs_tasks st') k = map_of (rs_tasks st) k \<and>
        map_of (rs_summary st') k = map_of (rs_summary st) k"
  proof (cases r)
    case (Some e)
    with assms(1) visit_error_state [of env n st e st'] show ?thesis by simp
  next
    case None
    with assms(1) have "visit env n st = (None, st')" by simp
    then show ?thesis using assms(2)
      by (cases rule: visit_cases) (simp_all add: update_conv')
  qed
  then show "map_of (rs_tasks st') k = map_of (rs_tasks st) k"
    and "map_of (rs_summary st') k = map_of (rs_summary st) k" by simp_all
qed

lemma run_loop_frame:
  assumes "run_loop env ns st = (r, st')" and "k \<notin> set ns"
  shows "map_of (rs_tasks st') k = map_of (rs_tasks st) k"
    and "map_of (rs_summary st') k = map_of (rs_summary st) k"
proof -
  have "map_of (rs_tasks st') k = map_of (rs_tasks st) k \<and>
        map_of (rs_summary st') k = map_of (rs_summary st) k"
    using assms
  proof (induction ns arbitrary: st)
    case Nil
    then show ?case by simp
  next
    case (Cons n ns)
    obtain r1 st1 where v: "visit env n st = (r1, st1)" by (cases "visit env n st")
    from Cons.prems(2) have kn: "k \<noteq> n" and k: "k \<notin> set ns" by simp_all
    note f = visit_frame [OF v kn]
    show ?case
    proof (cases r1)
      case (Some e)
      with v Cons.prems(1) have "st' = st1" by simp
      with f show ?thesis by simp
    next
      case None
      with v Cons.prems(1) have "run_loop env ns st1 = (r, st')" by simp
      from Cons.IH [OF this k] f show ?thesis by simp
    qed
  qed
  then show "map_of (rs_tasks st') k = map_of (rs_tasks st) k"
    and "map_of (rs_summary st') k = map_of (rs_summary st) k" by simp_all
qed

lemma visit_summary_keys:
  assumes "visit env n st = (None, st')" and "n \<notin> fst ` set (rs_summary st)"
  shows "map fst (rs_summary st') = map fst (rs_summary st) @ [n]"
  using assms by (cases rule: visit_cases) (simp_all add: update_keys)

lemma run_loop_summary_keys:
  assumes "run_loop env ns st = (None, st')" and "distinct ns"
    and "set ns \<inter> fst ` set (rs_summary st) = {}"
  shows "map fst (rs_summary st') = map fst (rs_summary st) @ ns"
  using assms
proof (induction ns arbitrary: st)
  case Nil
  then show ?case by simp
next
  case (Cons n ns)
  from Cons.prems(1) obtain st1 where v: "visit env n st = (None, st1)"
    and rest: "run_loop env ns st1 = (None, st')"
    by (auto split: prod.splits option.splits)
  from Cons.prems(3) have "n \<notin> fst ` set (rs_summary st)" by simp
  from visit_summary_keys [OF v this]
  have k1: "map fst (rs_summary st1) = map fst (rs_summary st) @ [n]" .
  then have "fst ` set (rs_summary st1) = insert n (fst ` set (rs_summary st))"
    by (metis Un_insert_right append_Nil2 list.simps(15) set_append set_map)
  with Cons.prems(2,3) have "set ns \<inter> fst ` set (rs_summary st1) = {}" by auto
  from Cons.IH [OF rest _ this] Cons.prems(2) k1 show ?case by simp
qed

lemma visit_visited:
  assumes "visit env n st = (None, st')"
  shows "\<exists>t'. map_of (rs_tasks st') n = Some t' \<and>
           (status t' = SUCCESS \<or> status t' = FAILED \<or> status t' = SKIPPED)"
  using assms
proof (cases rule: visit_cases)
  case (skip t)
  then show ?thesis by (simp add: update_conv')
next
  case (ran t c t')
  with invoke_status [of t c] show ?thesis by (auto simp: update_conv')
qed

lemma run_loop_visited:
  assumes "run_loop env ns st = (None, st')" and "distinct ns" and "k \<in> set ns"
  shows "\<exists>t'. map_of (rs_tasks st') k = Some t' \<and>
           (status t' = SUCCESS \<or> status t' = FAILED \<or> status t' = SKIPPED)"
  using assms
proof (induction ns arbitrary: st)
  case Nil
  then show ?case by simp
next
  case (Cons n ns)
  from Cons.prems(1) obtain st1 where v: "visit env n st = (None, st1)"
    and rest: "run_loop env ns st1 = (None, st')"
    by (auto split: prod.splits option.splits)
  show ?case
  proof (cases "k = n")
    case True
    with Cons.prems(2) have "k \<notin> set ns" by simp
    from run_loop_frame(1) [OF rest this] visit_visited [OF v] True show ?thesis by simp
  next
    case False
    with Cons.prems have "distinct ns" "k \<in> set ns" by simp_all
    from Cons.IH [OF rest this] show ?thesis .
  qed
qed

lemma visit_fault:
  assumes "visit env n st = (None, st')"
  shows "rs_calls st' = rs_calls st \<or>
         (\<exists>c. rs_calls st' = rs_calls st @ [(n, c)] \<and>
           (\<forall>t msg. map_of (rs_tasks st) n = Some t \<longrightarrow> execute_fn t c = Raises msg \<longrightarrow>
              (\<exists>t'. map_of (rs_tasks st') n = Some t' \<and> status t' = FAILED \<and> error t' = Some msg) \<and>
              (\<exists>d. map_of (rs_summary st') n = Some (RanEntry ''failed'' d (Some msg)))))"
  using assms
proof (cases rule: visit_cases)
  case (skip t)
  then show ?thesis by simp
next
  case (ran t c t')
  have "rs_calls st' = rs_calls st @ [(n, c)]" using ran by simp
  moreover have "(\<exists>t''. map_of (rs_tasks st') n = Some t'' \<and> status t'' = FAILED \<and> error t'' = Some msg) \<and>
      (\<exists>d. map_of (rs_summary st') n = Some (RanEntry ''failed'' d (Some msg)))"
    if "map_of (rs_tasks st) n = Some u" "execute_fn u c = Raises msg" for u msg
  proof -
    from that ran have "execute_fn t c = Raises msg" by simp
    from invoke_Raises [OF this] ran show ?thesis by (simp add: update_conv')
  qed
  ultimately show ?thesis by blast
qed

lemma run_loop_faults:
  assumes "run_loop env ns st = (None, st')" and "distinct ns"
  shows "\<exists>new. rs_calls st' = rs_calls st @ new \<and>
           (\<forall>(n, c) \<in> set new. n \<in> set ns \<and>
              (\<forall>t msg. map_of (rs_tasks st) n = Some t \<longrightarrow> execute_fn t c = Raises msg \<longrightarrow>
                 (\<exists>t'. map_of (rs_tasks st') n = Some t' \<and> status t' = FAILED \<and> error t' = Some msg) \<and>
                 (\<exists>d. map_of (rs_summary st') n = Some (RanEntry ''failed'' d (Some msg)))))"
  using assms
proof (induction ns arbitrary: st)
  case Nil
  then show ?case by simp
next
  case (Cons n ns)
  from Cons.prems(1) obtain st1 where v: "visit env n st = (None, st1)"
    and rest: "run_loop env ns st1 = (None, st')"
    by (auto split: prod.splits option.splits)
  from Cons.prems(2) have n: "n \<notin> set ns" and d: "distinct ns" by simp_all
  from Cons.IH [OF rest d] obtain new2 where new2: "rs_calls st' = rs_calls st1 @ new2"
    and ih: "\<And>m c. (m, c) \<in> set new2 \<Longrightarrow> m \<in> set ns \<and>
              (\<forall>t msg. map_of (rs_tasks st1) m = Some t \<longrightarrow> execute_fn t c = Raises msg \<longrightarrow>
                 (\<exists>t'. map_of (rs_tasks st') m = Some t' \<and> status t' = FAILED \<and> error t' = Some msg) \<and>
                 (\<exists>d. map_of (rs_summary st') m = Some (RanEntry ''failed'' d (Some msg))))"
    by blast
  have later: "m \<in> set (n # ns) \<and>
              (\<forall>t msg. map_of (rs_tasks st) m = Some t \<longrightarrow> execute_fn t c = Raises msg \<longrightarrow>
                 (\<exists>t'. map_of (rs_tasks st') m = Some t' \<and> status t' = FAILED \<and> error t' = Some msg) \<and>
                 (\<exists>d. map_of (rs_summary st') m = Some (RanEntry ''failed'' d (Some msg))))"
    if mc: "(m, c) \<in> set new2" for m c
  proof -
    from ih [OF mc] have m: "m \<in> set ns" by simp
    with n have "m \<noteq> n" by auto
    from visit_frame(1) [OF v this] have "map_of (rs_tasks st1) m = map_of (rs_tasks st) m" .
    with ih [OF mc] m show ?thesis by simp
  qed
  from visit_fault [OF v] show ?case
  proof
    assume "rs_calls st1 = rs_calls st"
    with new2 have "rs_calls st' = rs_calls st @ new2" by simp
    with later show ?thesis by blast
  next
    assume "\<exists>c. rs_calls st1 = rs_calls st @ [(n, c)] \<and>
           (\<forall>t msg. map_of (rs_tasks st) n = Some t \<longrightarrow> execute_fn t c = Raises msg \<longrightarrow>
              (\<exists>t'. map_of (rs_tasks st1) n = Some t' \<and> status t' = FAILED \<and> error t' = Some msg) \<and>
              (\<exists>d. map_of (rs_summary st1) n = Some (RanEntry ''failed'' d (Some msg))))"
    then obtain c where c: "rs_calls st1 = rs_calls st @ [(n, c)]"
      and f: "\<And>t msg. map_of (rs_tasks st) n = Some t \<Longrightarrow> execute_fn t c = Raises msg \<Longrightarrow>
              (\<exists>t'. map_of (rs_tasks st1) n = Some t' \<and> status t' = FAILED \<and> error t' = Some msg) \<and>
              (\<exists>d. map_of (rs_summary st1) n = Some (RanEntry ''failed'' d (Some msg)))"
      by blast
    from run_loop_frame [OF rest n]
    have same: "map_of (rs_tasks st') n = map_of (rs_tasks st1) n"
      "map_of (rs_summary st') n = map_of (rs_summary st1) n" .
    from c new2 have "rs_calls st' = rs_calls st @ ((n, c) # new2)" by simp
    moreover have "\<forall>(m, c') \<in> set ((n, c) # new2). m \<in> set (n # ns) \<and>
              (\<forall>t msg. map_of (rs_tasks st) m = Some t \<longrightarrow> execute_fn t c' = Raises msg \<longrightarrow>
                 (\<exists>t'. map_of (rs_tasks st') m = Some t' \<and> status t' = FAILED \<and> error t' = Some msg) \<and>
                 (\<exists>d. map_of (rs_summary st') m = Some (RanEntry ''failed'' d (Some msg))))"
      using later f same by auto
    ultimately show ?thesis by blast
  qed
qed







section \<open>The claims\<close>

text \<open>
  C1. A graph whose dependency relation is acyclic and whose names all resolve is to be
  scheduled into a permutation of its node names. On the graph with tasks \<open>a\<close> and \<open>b\<close>,
  where \<open>b\<close> lists \<open>a\<close> twice, the scheduler instead fails with the cycle error: the
  in-degree of \<open>b\<close> counts both entries and is decremented once.
\<close>

theorem toposort_repeated_dependency:
  "wf_dag twice_a \<and> resolved twice_a \<and> acyclic (dep_rel twice_a) \<and>
   topological_sort twice_a = Inl CycleError"
proof -
  have "wf_dag twice_a" by (simp add: wf_dag_def example_defs)
  moreover have "resolved twice_a" by (simp add: resolved_def example_defs)
  moreover have "acyclic (dep_rel twice_a)"
    by (simp add: dep_rel_def example_defs acyclic_insert wf_acyclic)
  moreover have "topological_sort twice_a = Inl CycleError"
    by (simp add: topological_sort_def example_defs)
  ultimately show ?thesis by blast
qed

text \<open>
  C2. A node whose direct dependency ended SKIPPED is to be skipped as well. In the
  chain where \<open>a\<close> raises, \<open>b\<close> depends on \<open>a\<close> and \<open>c\<close> on \<open>b\<close>, the run skips \<open>b\<close> but
  invokes the logic of \<open>c\<close>, which ends SUCCESS: the skip check looks for FAILED only.
\<close>

theorem skipped_dependency_runs_dependent:
  "(case run unit_clock chain_abc None of
      (r, g, calls) \<Rightarrow>
        map (\<lambda>(k, t). (k, status t)) (tasks g)
          = [(''a'', FAILED), (''b'', SKIPPED), (''c'', SUCCESS)] \<and>
        map fst calls = [''a'', ''c''])"
  by (simp add: run_def topological_sort_def visit_def invoke_def example_defs
        unit_clock_def ok_def boom_def)

text \<open>
  C3. When every dependency name resolves and the dependency relation has a cycle, both
  the scheduler and \<^verbatim>\<open>run\<close> fail with the cycle error, the order the loop emitted being
  shorter than the number of tasks; the scheduler's loop terminates on every graph, so
  neither hangs, and \<^verbatim>\<open>run\<close> invokes no logic and leaves the graph as it was.
\<close>

theorem cycle_detected:
  assumes "wf_dag g" and "resolved g" and "\<not> acyclic (dep_rel g)"
  shows "topological_sort g = Inl CycleError \<and>
         run env g initial_context = (Inl CycleError, g, []) \<and>
         (\<exists>order. emitted_order g = Inr order \<and> length order < length (tasks g))"
proof -
  from toposort_resolved [OF assms(1,2)]
  obtain deg order where em: "emitted_order g = Inr order"
    and inv: "kahn_inv (tasks g) deg [] order"
    and ts: "topological_sort g =
               (if length order \<noteq> length (tasks g) then Inl CycleError else Inr order)"
    by blast
  from assms(1) have dist: "distinct (map fst (tasks g))" by (simp add: wf_dag_def)
  have neq: "length order \<noteq> length (tasks g)"
  proof
    assume "length order = length (tasks g)"
    from kahn_inv_final_set [OF dist inv this] have all: "set order = fst ` set (tasks g)" .
    have "acyclic (dep_rel g)"
    proof (rule positions_acyclic [of _ order])
      fix k dep assume "(k, dep) \<in> dep_rel g"
      then obtain t where "(k, t) \<in> set (tasks g)" "dep \<in> set (depends_on t)"
        by (auto simp: dep_rel_iff)
      from kahn_inv_positions [OF dist inv all this]
      show "position order dep < position order k" .
    qed
    with assms(3) show False by simp
  qed
  from inv have "distinct order" and "set order \<subseteq> set (map fst (tasks g))"
    by (simp_all add: kahn_inv_def)
  then have "card (set order) \<le> card (set (map fst (tasks g)))" by (intro card_mono) simp_all
  also have "card (set order) = length order" using \<open>distinct order\<close> by (rule distinct_card)
  also have "card (set (map fst (tasks g))) \<le> length (map fst (tasks g))" by (rule card_length)
  finally have "length order \<le> length (tasks g)" by simp
  with neq have short: "length order < length (tasks g)" by simp
  from neq ts have "topological_sort g = Inl CycleError" by simp
  with em short show ?thesis by (simp add: run_def)
qed

theorem cycle_detected_witness:
  "wf_dag cycle_ab \<and> resolved cycle_ab \<and> \<not> acyclic (dep_rel cycle_ab) \<and>
   (topological_sort cycle_ab = Inl CycleError \<and>
    run unit_clock cycle_ab None = (Inl CycleError, cycle_ab, []) \<and>
    (\<exists>order. emitted_order cycle_ab = Inr order \<and> length order < length (tasks cycle_ab)))"
proof -
  have h1: "wf_dag cycle_ab" by (simp add: wf_dag_def example_defs)
  have h2: "resolved cycle_ab" by (simp add: resolved_def example_defs)
  have 1: "(''a'', ''b'') \<in> dep_rel cycle_ab" by (simp add: dep_rel_def example_defs)
  have 2: "(''b'', ''a'') \<in> dep_rel cycle_ab" by (simp add: dep_rel_def example_defs)
  from 1 2 have "(''a'', ''a'') \<in> (dep_rel cycle_ab)\<^sup>+"
    by (rule trancl_into_trancl [OF r_into_trancl])
  then have h3: "\<not> acyclic (dep_rel cycle_ab)" by (auto simp: acyclic_def)
  show ?thesis by (intro conjI h1 h2 h3 cycle_detected [OF h1 h2 h3])
qed

text \<open>
  C4. When some node declares a dependency that no node is named by, \<^verbatim>\<open>run\<close> fails
  with the unknown-dependency error naming such a node and its missing dependency; no
  task logic has been invoked and the graph, with every node's status, result, error
  and duration, is as it was before the call.
\<close>

theorem run_unknown_dependency:
  assumes "wf_dag g" and "\<not> resolved g"
  shows "\<exists>k t dep. (k, t) \<in> set (tasks g) \<and> dep \<in> set (depends_on t) \<and>
           dep \<notin> fst ` set (tasks g) \<and>
           run env g initial_context = (Inl (UnknownDependencyError (TaskNode.name t) dep), g, [])"
proof -
  from toposort_unknown [OF assms]
  obtain k t dep where "(k, t) \<in> set (tasks g)" "dep \<in> set (depends_on t)"
    "dep \<notin> fst ` set (tasks g)"
    "topological_sort g = Inl (UnknownDependencyError (TaskNode.name t) dep)"
    by blast
  then show ?thesis
    by (intro exI [of _ k] exI [of _ t] exI [of _ dep]) (simp add: run_def)
qed

theorem run_unknown_dependency_witness:
  "wf_dag ghost_dep \<and> \<not> resolved ghost_dep \<and>
   (\<exists>k t dep. (k, t) \<in> set (tasks ghost_dep) \<and> dep \<in> set (depends_on t) \<and>
      dep \<notin> fst ` set (tasks ghost_dep) \<and>
      run unit_clock ghost_dep None
        = (Inl (UnknownDependencyError (TaskNode.name t) dep), ghost_dep, []))"
proof -
  have h1: "wf_dag ghost_dep" by (simp add: wf_dag_def example_defs)
  have h2: "\<not> resolved ghost_dep" by (simp add: resolved_def example_defs)
  show ?thesis by (intro conjI h1 h2 run_unknown_dependency [OF h1 h2])
qed

text \<open>
  C5. When the graph schedules, \<^verbatim>\<open>run\<close> returns a summary, with an entry for every node
  in schedule order, and leaves every node SUCCESS, FAILED or SKIPPED. Whenever the
  logic of a node was invoked and raised, that node is FAILED after the run and its
  error, in the node and in its summary entry, is the string of the exception.
\<close>

theorem faults_contained:
  assumes "wf_dag g" and "topological_sort g = Inr order"
  shows "\<exists>s g' calls. run env g initial_context = (Inr s, g', calls) \<and>
           map fst (summary_tasks s) = order \<and>
           (\<forall>(k, t') \<in> set (tasks g').
              status t' = SUCCESS \<or> status t' = FAILED \<or> status t' = SKIPPED) \<and>
           (\<forall>(n, c) \<in> set calls. \<forall>t msg.
              map_of (tasks g) n = Some t \<longrightarrow> execute_fn t c = Raises msg \<longrightarrow>
                (\<exists>t'. map_of (tasks g') n = Some t' \<and> status t' = FAILED \<and> error t' = Some msg) \<and>
                (\<exists>d. map_of (summary_tasks s) n = Some (RanEntry ''failed'' d (Some msg))))"
proof -
  from run_scheduled [OF assms, of env initial_context]
  obtain st where loop: "run_loop env order (start g initial_context) = (None, st)"
    and r: "run env g initial_context =
             (Inr \<lparr>summary_pipeline = DAG.name g, summary_tasks = rs_summary st,
                   summary_status =
                     (if list_all (\<lambda>(k, t). status t = SUCCESS) (rs_tasks st)
                      then ''completed'' else ''failed'')\<rparr>,
              g\<lparr>tasks := rs_tasks st\<rparr>, rs_calls st)"
    by blast
  note ord = toposort_order [OF assms]
  from run_loop_summary_keys [OF loop ord(1)]
  have 1: "map fst (rs_summary st) = order" by (simp add: start_def)
  from run_loop_static [OF loop] have "static (rs_tasks st) = static (tasks g)"
    by (simp add: start_def)
  from static_keys [OF this] have keys: "map fst (rs_tasks st) = map fst (tasks g)" .
  with assms(1) have dist: "distinct (map fst (rs_tasks st))" by (simp add: wf_dag_def)
  have 2: "status t' = SUCCESS \<or> status t' = FAILED \<or> status t' = SKIPPED"
    if "(k, t') \<in> set (rs_tasks st)" for k t'
  proof -
    from that have "k \<in> set (map fst (rs_tasks st))" by force
    with keys ord(2) have "k \<in> set order" by simp
    from run_loop_visited [OF loop ord(1) this]
    obtain u where "map_of (rs_tasks st) k = Some u"
      "status u = SUCCESS \<or> status u = FAILED \<or> status u = SKIPPED" by blast
    moreover from dist that have "map_of (rs_tasks st) k = Some t'" by (rule map_of_is_SomeI)
    ultimately show ?thesis by simp
  qed
  from run_loop_faults [OF loop ord(1)]
  have 3: "\<forall>(n, c) \<in> set (rs_calls st). \<forall>t msg.
              map_of (tasks g) n = Some t \<longrightarrow> execute_fn t c = Raises msg \<longrightarrow>
                (\<exists>t'. map_of (rs_tasks st) n = Some t' \<and> status t' = FAILED \<and> error t' = Some msg) \<and>
                (\<exists>d. map_of (rs_summary st) n = Some (RanEntry ''failed'' d (Some msg)))"
    by (auto simp: start_def)
  let ?s = "\<lparr>summary_pipeline = DAG.name g, summary_tasks = rs_summary st,
             summary_status =
               (if list_all (\<lambda>(k, t). status t = SUCCESS) (rs_tasks st)
                then ''completed'' else ''failed'')\<rparr>"
  let ?g' = "g\<lparr>tasks := rs_tasks st\<rparr>"
  have "run env g initial_context = (Inr ?s, ?g', rs_calls st)" by (rule r)
  moreover have "map fst (summary_tasks ?s) = order" using 1 by simp
  moreover have "\<forall>(k, t') \<in> set (tasks ?g').
              status t' = SUCCESS \<or> status t' = FAILED \<or> status t' = SKIPPED"
    using 2 by auto
  moreover have "\<forall>(n, c) \<in> set (rs_calls st). \<forall>t msg.
              map_of (tasks g) n = Some t \<longrightarrow> execute_fn t c = Raises msg \<longrightarrow>
                (\<exists>t'. map_of (tasks ?g') n = Some t' \<and> status t' = FAILED \<and> error t' = Some msg) \<and>
                (\<exists>d. map_of (summary_tasks ?s) n = Some (RanEntry ''failed'' d (Some msg)))"
    using 3 by simp
  ultimately show ?thesis by blast
qed

theorem faults_contained_witness:
  "wf_dag chain_abc \<and> topological_sort chain_abc = Inr [''a'', ''b'', ''c''] \<and>
   (\<exists>s g' calls. run unit_clock chain_abc None = (Inr s, g', calls) \<and>
           map fst (summary_tasks s) = [''a'', ''b'', ''c''] \<and>
           (\<forall>(k, t') \<in> set (tasks g').
              status t' = SUCCESS \<or> status t' = FAILED \<or> status t' = SKIPPED) \<and>
           (\<forall>(n, c) \<in> set calls. \<forall>t msg.
              map_of (tasks chain_abc) n = Some t \<longrightarrow> execute_fn t c = Raises msg \<longrightarrow>
                (\<exists>t'. map_of (tasks g') n = Some t' \<and> status t' = FAILED \<and> error t' = Some msg) \<and>
                (\<exists>d. map_of (summary_tasks s) n = Some (RanEntry ''failed'' d (Some msg)))))"
proof -
  have h1: "wf_dag chain_abc" by (simp add: wf_dag_def example_defs)
  have h2: "topological_sort chain_abc = Inr [''a'', ''b'', ''c'']"
    by (simp add: topological_sort_def example_defs)
  show ?thesis by (intro conjI h1 h2 faults_contained [OF h1 h2])
qed

text \<open>
  C6. When the graph schedules, \<^verbatim>\<open>run\<close> returns a summary whose overall status is
  \<open>completed\<close> exactly when every node of the graph has status SUCCESS after the run,
  and \<open>failed\<close> otherwise, in particular when some node ended FAILED or SKIPPED.
\<close>

theorem overall_status:
  assumes "wf_dag g" and "topological_sort g = Inr order"
  shows "\<exists>s g' calls. run env g initial_context = (Inr s, g', calls) \<and>
           (summary_status s = ''completed'' \<longleftrightarrow>
              (\<forall>(k, t) \<in> set (tasks g'). status t = SUCCESS)) \<and>
           (summary_status s \<noteq> ''completed'' \<longrightarrow> summary_status s = ''failed'') \<and>
           ((\<exists>(k, t) \<in> set (tasks g'). status t = FAILED \<or> status t = SKIPPED) \<longrightarrow>
              summary_status s = ''failed'')"
proof -
  from run_scheduled [OF assms, of env initial_context]
  obtain st where "run_loop env order (start g initial_context) = (None, st)"
    and r: "run env g initial_context =
             (Inr \<lparr>summary_pipeline = DAG.name g, summary_tasks = rs_summary st,
                   summary_status =
                     (if list_all (\<lambda>(k, t). status t = SUCCESS) (rs_tasks st)
                      then ''completed'' else ''failed'')\<rparr>,
              g\<lparr>tasks := rs_tasks st\<rparr>, rs_calls st)"
    by blast
  show ?thesis
    unfolding r
    by (intro exI conjI, rule refl) (auto simp: list_all_iff)
qed

theorem overall_status_witness:
  "wf_dag chain_abc \<and> topological_sort chain_abc = Inr [''a'', ''b'', ''c''] \<and>
   (\<exists>s g' calls. run unit_clock chain_abc None = (Inr s, g', calls) \<and>
           (summary_status s = ''completed'' \<longleftrightarrow>
              (\<forall>(k, t) \<in> set (tasks g'). status t = SUCCESS)) \<and>
           (summary_status s \<noteq> ''completed'' \<longrightarrow> summary_status s = ''failed'') \<and>
           ((\<exists>(k, t) \<in> set (tasks g'). status t = FAILED \<or> status t = SKIPPED) \<longrightarrow>
              summary_status s = ''failed''))"
proof -
  have h1: "wf_dag chain_abc" by (simp add: wf_dag_def example_defs)
  have h2: "topological_sort chain_abc = Inr [''a'', ''b'', ''c'']"
    by (simp add: topological_sort_def example_defs)
  show ?thesis by (intro conjI h1 h2 overall_status [OF h1 h2])
qed




text \<open>
  C9. Adding a node under a name the graph already holds fails with the duplicate-name
  error (the \<^verbatim>\<open>ValueError\<close> whose message names the task) and leaves the graph as it
  was: the node stored under the name keeps its logic and its dependency list, and no
  node is added.
\<close>

theorem add_task_duplicate:
  "n \<in> fst ` set (tasks g) \<Longrightarrow> add_task g n fn deps = (Some (DuplicateNameError n), g)"
  by (simp add: add_task_def)

theorem add_task_duplicate_witness:
  "''a'' \<in> fst ` set (tasks chain_abc) \<and>
   add_task chain_abc ''a'' ok (Some [''c'']) = (Some (DuplicateNameError ''a''), chain_abc)"
proof -
  have h: "''a'' \<in> fst ` set (tasks chain_abc)" by (simp add: example_defs)
  from add_task_duplicate [OF h] h show ?thesis by simp
qed



end
